theory Spec2Isabelle
  imports Main
begin

section \<open>Data model\<close>

text \<open>
  The game lives in one React component, \<^verbatim>\<open>App\<close> of \<^verbatim>\<open>App.js\<close>. A board is a JavaScript
  array of nine entries, each \<^verbatim>\<open>'X'\<close>, \<^verbatim>\<open>'O'\<close> or \<^verbatim>\<open>null\<close>: here a list of optional
  marks, \<open>MarkX\<close> and \<open>MarkO\<close> being the two strings and \<open>None\<close> being \<^verbatim>\<open>null\<close>.
\<close>

datatype mark = MarkX | MarkO

type_synonym cell = "mark option"

type_synonym board = "cell list"

text \<open>
  \<^verbatim>\<open>squares[i]\<close>. Past the end JavaScript reads \<^verbatim>\<open>undefined\<close>, which is as falsy as
  \<^verbatim>\<open>null\<close> and equal to no mark, so both are \<open>None\<close> here. Every board the component
  builds has nine cells (\<^verbatim>\<open>Array(9).fill(null)\<close>, \<^verbatim>\<open>board.slice()\<close>), and is only read and
  written at indices below nine.
\<close>

definition cellAt :: "board \<Rightarrow> nat \<Rightarrow> cell" where
  "cellAt squares i = (if i < length squares then squares ! i else None)"

definition emptyBoard :: board where
  "emptyBoard = replicate 9 None"

text \<open>
  The value of \<^verbatim>\<open>calculateWinner\<close>: \<^verbatim>\<open>null\<close>, or an object whose \<^verbatim>\<open>winner\<close> is one of
  the strings \<^verbatim>\<open>'X'\<close>, \<^verbatim>\<open>'O'\<close>, \<^verbatim>\<open>'draw'\<close> and whose \<^verbatim>\<open>line\<close> is an array of indices.
\<close>

datatype outcome = Won mark | Draw

record result =
  winner :: outcome
  line :: "nat list"

section \<open>calculateWinner\<close>

definition lines :: "(nat \<times> nat \<times> nat) list" where
  "lines = [(0,1,2), (3,4,5), (6,7,8),
            (0,3,6), (1,4,7), (2,5,8),
            (0,4,8), (2,4,6)]"

text \<open>The \<^verbatim>\<open>for (let [a, b, c] of lines)\<close> loop, returning from inside at the first hit.\<close>

fun scanLines :: "board \<Rightarrow> (nat \<times> nat \<times> nat) list \<Rightarrow> result option" where
  "scanLines squares [] = None"
| "scanLines squares ((a, b, c) # rest) =
     (if cellAt squares a \<noteq> None
         \<and> cellAt squares a = cellAt squares b
         \<and> cellAt squares a = cellAt squares c
      then Some \<lparr>winner = Won (the (cellAt squares a)), line = [a, b, c]\<rparr>
      else scanLines squares rest)"

definition calculateWinner :: "board \<Rightarrow> result option" where
  "calculateWinner squares =
     (case scanLines squares lines of
        Some r \<Rightarrow> Some r
      | None \<Rightarrow>
          if None \<notin> set squares then Some \<lparr>winner = Draw, line = []\<rparr>
          else None)"

section \<open>findBestMove\<close>

text \<open>
  The first two loops of \<^verbatim>\<open>findBestMove\<close> differ only in the mark they try (\<^verbatim>\<open>'O'\<close>, then
  \<^verbatim>\<open>'X'\<close>): for \<open>i\<close> from 0 to 8, copy the board, and if cell \<open>i\<close> of the copy is falsy
  write the mark there and return \<open>i\<close> when \<^verbatim>\<open>calculateWinner(newB)?.winner\<close> is that mark.
  \<open>None\<close> is the loop running to its end. The write is in range on a nine-cell board.
\<close>

function tryMark :: "mark \<Rightarrow> board \<Rightarrow> nat \<Rightarrow> nat option" where
  "tryMark m b i =
     (if i < 9 then
        (if cellAt b i = None
            \<and> map_option winner (calculateWinner (b[i := Some m])) = Some (Won m)
         then Some i
         else tryMark m b (i + 1))
      else None)"
  by pat_completeness auto
termination
  by (relation "measure (\<lambda>(m, b, i). 9 - i)") auto

text \<open>\<^verbatim>\<open>for (let idx of [0,2,6,8]) if (!b[idx]) return idx;\<close>\<close>

fun firstFree :: "board \<Rightarrow> nat list \<Rightarrow> nat option" where
  "firstFree b [] = None"
| "firstFree b (idx # rest) = (if cellAt b idx = None then Some idx else firstFree b rest)"

text \<open>\<^verbatim>\<open>for (let i = 0; i < 9; i++) if (!b[i]) return i;\<close>\<close>

function anyFree :: "board \<Rightarrow> nat \<Rightarrow> nat option" where
  "anyFree b i =
     (if i < 9 then (if cellAt b i = None then Some i else anyFree b (i + 1))
      else None)"
  by pat_completeness auto
termination
  by (relation "measure (\<lambda>(b, i). 9 - i)") auto

text \<open>\<open>None\<close> is the \<^verbatim>\<open>return null\<close> of the last line.\<close>

definition findBestMove :: "board \<Rightarrow> nat option" where
  "findBestMove b =
     (case tryMark MarkO b 0 of
        Some i \<Rightarrow> Some i
      | None \<Rightarrow>
     (case tryMark MarkX b 0 of
        Some i \<Rightarrow> Some i
      | None \<Rightarrow>
     (if cellAt b 4 = None then Some 4
      else
     (case firstFree b [0, 2, 6, 8] of
        Some idx \<Rightarrow> Some idx
      | None \<Rightarrow> anyFree b 0))))"

section \<open>The component's state and its handlers\<close>

datatype mode = PVP | AI

text \<open>The seven \<^verbatim>\<open>useState\<close> cells of \<^verbatim>\<open>App\<close>: what one render of the component sees.\<close>

record app_state =
  board :: board
  xIsNext :: bool
  gameMode :: mode
  isGameActive :: bool
  status :: string
  winnerLine :: "nat list"
  aiThinking :: bool

definition initialState :: app_state where
  "initialState =
     \<lparr>board = emptyBoard, xIsNext = True, gameMode = PVP, isGameActive = True,
      status = [], winnerLine = [], aiThinking = False\<rparr>"

definition handleRestart :: "app_state \<Rightarrow> app_state" where
  "handleRestart s =
     s\<lparr>board := emptyBoard, xIsNext := True, isGameActive := True,
       winnerLine := [], status := [], aiThinking := False\<rparr>"

text \<open>The guard of \<^verbatim>\<open>handleClick\<close>, on the values of the render the handler belongs to.\<close>

definition clickIgnored :: "app_state \<Rightarrow> nat \<Rightarrow> bool" where
  "clickIgnored r i =
     (\<not> isGameActive r \<or> cellAt (board r) i \<noteq> None \<or> (gameMode r = AI \<and> \<not> xIsNext r))"

text \<open>
  \<^verbatim>\<open>handleClick\<close> is a closure of one render: it reads \<^verbatim>\<open>isGameActive\<close>, \<^verbatim>\<open>board\<close>,
  \<^verbatim>\<open>gameMode\<close> and \<^verbatim>\<open>xIsNext\<close> of that render \<open>r\<close>, and its two setters overwrite the
  cells of the current state \<open>s\<close>. A click on a square runs the handler of the current
  render (\<open>r = s\<close>); the timer runs the handler of the render that started it.
\<close>

definition handleClick :: "app_state \<Rightarrow> app_state \<Rightarrow> nat \<Rightarrow> app_state" where
  "handleClick r s i =
     (if clickIgnored r i then s
      else
        (let newBoard = (board r)[i := Some (if xIsNext r then MarkX else MarkO)]
         in s\<lparr>board := newBoard, xIsNext := \<not> xIsNext r\<rparr>))"

definition handleModeChange :: "mode \<Rightarrow> app_state \<Rightarrow> app_state" where
  "handleModeChange v s = handleRestart (s\<lparr>gameMode := v\<rparr>)"

text \<open>\<^verbatim>\<open>disabled={!isGameActive && winnerLine.length > 0}\<close> on the mode select.\<close>

definition modeSelectDisabled :: "app_state \<Rightarrow> bool" where
  "modeSelectDisabled s = (\<not> isGameActive s \<and> length (winnerLine s) > 0)"

section \<open>The effect on board, xIsNext and gameMode\<close>

definition winnerStatus :: "app_state \<Rightarrow> result \<Rightarrow> string" where
  "winnerStatus r res =
     (if winner res = Draw then ''It's a draw!''
      else ''Winner: '' @
        (if winner res = Won MarkX then ''Player 1''
         else if gameMode r = PVP then ''Player 2'' else ''AI''))"

text \<open>The first half of the effect: the setters it calls for the render \<open>r\<close>.\<close>

definition statusEffect :: "app_state \<Rightarrow> app_state" where
  "statusEffect r =
     (case calculateWinner (board r) of
        Some res \<Rightarrow>
          r\<lparr>isGameActive := False, winnerLine := line res, status := winnerStatus r res\<rparr>
      | None \<Rightarrow>
          if gameMode r = AI then
            (if xIsNext r then r\<lparr>winnerLine := [], status := ''Your turn (X)''\<rparr>
             else r\<lparr>winnerLine := [], status := ''AI thinking...'', aiThinking := True\<rparr>)
          else
            r\<lparr>winnerLine := [],
              status := ''Turn: Player '' @ (if xIsNext r then ''1 (X)'' else ''2 (O)'')\<rparr>)"

text \<open>The condition of the second half, under which the effect starts the 550 ms timer.\<close>

definition startsTimer :: "app_state \<Rightarrow> bool" where
  "startsTimer r = (gameMode r = AI \<and> \<not> xIsNext r \<and> calculateWinner (board r) = None)"

definition gameEffect :: "app_state \<Rightarrow> app_state" where
  "gameEffect r =
     (if startsTimer r then (statusEffect r)\<lparr>aiThinking := True\<rparr> else statusEffect r)"

text \<open>
  The timer's callback, a closure of the render \<open>r\<close> whose effect started it, acting on
  the current state \<open>s\<close>.
\<close>

definition timerCallback :: "app_state \<Rightarrow> app_state \<Rightarrow> app_state" where
  "timerCallback r s =
     (let s' = (case findBestMove (board r) of
                  None \<Rightarrow> s
                | Some move \<Rightarrow> handleClick r s move)
      in s'\<lparr>aiThinking := False\<rparr>)"

section \<open>The session: state, pending timer, events\<close>

text \<open>
  A session is the current state together with the pending timer, if any, held as the
  render that the timer's callback closes over. React runs the effect after a render
  in which \<^verbatim>\<open>board\<close>, \<^verbatim>\<open>xIsNext\<close> or \<^verbatim>\<open>gameMode\<close> differs from the render before, and runs
  the previous effect's cleanup (\<^verbatim>\<open>clearTimeout\<close>) first. Every \<^verbatim>\<open>setBoard\<close> of the
  component passes a fresh array, so each handler that sets the board triggers the
  effect; the setters the effect itself calls touch none of the three, so the render
  they cause leaves the timer alone. The setters of one handler are applied together.
\<close>

record session =
  now :: app_state
  pending :: "app_state option"

text \<open>A render with changed dependencies: the old timer is cleared, the effect runs.\<close>

definition rerender :: "app_state \<Rightarrow> session" where
  "rerender r = \<lparr>now = gameEffect r, pending = (if startsTimer r then Some r else None)\<rparr>"

definition mount :: session where
  "mount = rerender initialState"

definition clickEvent :: "nat \<Rightarrow> session \<Rightarrow> session" where
  "clickEvent i s =
     (if clickIgnored (now s) i then s
      else rerender (handleClick (now s) (now s) i))"

definition restartEvent :: "session \<Rightarrow> session" where
  "restartEvent s = rerender (handleRestart (now s))"

definition modeChangeEvent :: "mode \<Rightarrow> session \<Rightarrow> session" where
  "modeChangeEvent v s = rerender (handleModeChange v (now s))"

text \<open>
  The timer fires: nothing when none is pending. When the callback's \<^verbatim>\<open>handleClick\<close>
  returns early only \<^verbatim>\<open>aiThinking\<close> is set and no effect runs.
\<close>

definition timerEvent :: "session \<Rightarrow> session" where
  "timerEvent s =
     (case pending s of
        None \<Rightarrow> s
      | Some r \<Rightarrow>
          (case findBestMove (board r) of
             None \<Rightarrow> \<lparr>now = timerCallback r (now s), pending = None\<rparr>
           | Some move \<Rightarrow>
               if clickIgnored r move
               then \<lparr>now = timerCallback r (now s), pending = None\<rparr>
               else rerender (timerCallback r (now s))))"

text \<open>
  What can happen to a session. A square exists for each index of the board
  (\<^verbatim>\<open>board.map\<close> in \<^verbatim>\<open>renderBoard\<close>), and a disabled select sends no change.
\<close>

datatype event = Click nat | Restart | ModeChange mode | TimerFires

fun step :: "event \<Rightarrow> session \<Rightarrow> session" where
  "step (Click i) s = (if i < length (board (now s)) then clickEvent i s else s)"
| "step Restart s = restartEvent s"
| "step (ModeChange v) s = (if modeSelectDisabled (now s) then s else modeChangeEvent v s)"
| "step TimerFires s = timerEvent s"

definition run :: "event list \<Rightarrow> session \<Rightarrow> session" where
  "run es s = foldl (\<lambda>s e. step e s) s es"

inductive reachable :: "session \<Rightarrow> bool" where
  reach_mount: "reachable mount"
| reach_step: "reachable s \<Longrightarrow> reachable (step e s)"

section \<open>Vocabulary of the statements\<close>

text \<open>A line is complete on a board: its three cells are non-empty and equal.\<close>

definition complete :: "board \<Rightarrow> nat \<times> nat \<times> nat \<Rightarrow> bool" where
  "complete squares l =
     (case l of (a, b, c) \<Rightarrow>
        cellAt squares a \<noteq> None \<and> cellAt squares a = cellAt squares b
          \<and> cellAt squares a = cellAt squares c)"

text \<open>The line as the index array the result carries.\<close>

definition indices :: "nat \<times> nat \<times> nat \<Rightarrow> nat list" where
  "indices l = (case l of (a, b, c) \<Rightarrow> [a, b, c])"

text \<open>Cell \<open>i\<close> of the board is one of the nine cells and is empty.\<close>

definition emptyAt :: "board \<Rightarrow> nat \<Rightarrow> bool" where
  "emptyAt b i = (i < 9 \<and> cellAt b i = None)"

text \<open>
  Placing mark \<open>m\<close> on the empty cell \<open>i\<close> gives a board on which \<open>calculateWinner\<close>
  reports a win for \<open>m\<close>.
\<close>

definition winsBy :: "mark \<Rightarrow> board \<Rightarrow> nat \<Rightarrow> bool" where
  "winsBy m b i =
     (emptyAt b i \<and> map_option winner (calculateWinner (b[i := Some m])) = Some (Won m))"

text \<open>\<open>i\<close> is the lowest index with property \<open>P\<close>.\<close>

definition lowest :: "(nat \<Rightarrow> bool) \<Rightarrow> nat \<Rightarrow> bool" where
  "lowest P i = (P i \<and> (\<forall>j<i. \<not> P j))"

text \<open>How many cells of the board hold mark \<open>m\<close>.\<close>

definition countMark :: "mark \<Rightarrow> board \<Rightarrow> nat" where
  "countMark m b = count_list b (Some m)"

text \<open>
  What every reachable session satisfies: nine cells, as many X as O when X is next and
  one X more when O is next, and a pending timer only from a render in computer mode
  with O to move.
\<close>

definition sessionInv :: "session \<Rightarrow> bool" where
  "sessionInv s =
     (length (board (now s)) = 9
      \<and> countMark MarkX (board (now s))
          = countMark MarkO (board (now s)) + (if xIsNext (now s) then 0 else 1)
      \<and> (case pending s of None \<Rightarrow> True | Some r \<Rightarrow> gameMode r = AI \<and> \<not> xIsNext r))"

section \<open>Properties of calculateWinner\<close>

lemma scanLines_Cons:
  "scanLines squares (l # rest) =
     (if complete squares l
      then Some \<lparr>winner = Won (the (cellAt squares (fst l))), line = indices l\<rparr>
      else scanLines squares rest)"
  by (cases l) (auto simp: complete_def indices_def)

lemma scanLines_none:
  "(scanLines squares ls = None) = (list_all (\<lambda>l. \<not> complete squares l) ls)"
  by (induction ls) (simp_all add: scanLines_Cons del: scanLines.simps(2))

lemma scanLines_first:
  assumes "k < length ls" and "complete squares (ls ! k)"
    and "\<forall>j<k. \<not> complete squares (ls ! j)"
  shows "scanLines squares ls =
    Some \<lparr>winner = Won (the (cellAt squares (fst (ls ! k)))), line = indices (ls ! k)\<rparr>"
  using assms
proof (induction ls arbitrary: k)
  case Nil
  then show ?case by simp
next
  case (Cons l ls)
  show ?case
  proof (cases k)
    case 0
    with Cons.prems show ?thesis
      by (simp add: scanLines_Cons del: scanLines.simps(2))
  next
    case (Suc j)
    from Cons.prems(3) Suc have nl: "\<not> complete squares l"
      by auto
    from Cons.prems Suc have j: "j < length ls" and cj: "complete squares (ls ! j)"
      by simp_all
    from Cons.prems(3) Suc have tj: "\<forall>i<j. \<not> complete squares (ls ! i)"
      by auto
    from Cons.IH [OF j cj tj] nl Suc show ?thesis
      by (simp add: scanLines_Cons del: scanLines.simps(2))
  qed
qed

text \<open>
  Claim C2. The eight lines are scanned rows first, then columns, then diagonals. When
  line number \<open>k\<close> of that order is complete and none before it is, the result is a win
  carrying the mark on that line and that line. When no line is complete, the result is
  a draw with an empty line if no cell is empty, and no result otherwise. The statement
  holds for every board, the nine-cell ones among them: \<open>calculateWinner\<close> is a total
  function that only reads its argument.
\<close>

theorem calculateWinner_scan_order:
  "lines = [(0,1,2), (3,4,5), (6,7,8)] @ [(0,3,6), (1,4,7), (2,5,8)] @ [(0,4,8), (2,4,6)]
   \<and> (k < length lines \<and> complete squares (lines ! k)
        \<and> (\<forall>j<k. \<not> complete squares (lines ! j))
        \<and> cellAt squares (fst (lines ! k)) = Some m
      \<longrightarrow> calculateWinner squares = Some \<lparr>winner = Won m, line = indices (lines ! k)\<rparr>)
   \<and> ((\<forall>l\<in>set lines. \<not> complete squares l) \<and> None \<notin> set squares
      \<longrightarrow> calculateWinner squares = Some \<lparr>winner = Draw, line = []\<rparr>)
   \<and> ((\<forall>l\<in>set lines. \<not> complete squares l) \<and> None \<in> set squares
      \<longrightarrow> calculateWinner squares = None)"
proof (intro conjI impI)
  show "lines = [(0,1,2), (3,4,5), (6,7,8)] @ [(0,3,6), (1,4,7), (2,5,8)] @ [(0,4,8), (2,4,6)]"
    by (simp add: lines_def)
next
  assume a: "k < length lines \<and> complete squares (lines ! k)
        \<and> (\<forall>j<k. \<not> complete squares (lines ! j))
        \<and> cellAt squares (fst (lines ! k)) = Some m"
  then have "scanLines squares lines =
      Some \<lparr>winner = Won (the (cellAt squares (fst (lines ! k)))), line = indices (lines ! k)\<rparr>"
    by (intro scanLines_first) simp_all
  with a show "calculateWinner squares = Some \<lparr>winner = Won m, line = indices (lines ! k)\<rparr>"
    by (simp add: calculateWinner_def)
next
  assume "(\<forall>l\<in>set lines. \<not> complete squares l) \<and> None \<notin> set squares"
  then have "scanLines squares lines = None" "None \<notin> set squares"
    by (simp_all add: scanLines_none list_all_iff)
  then show "calculateWinner squares = Some \<lparr>winner = Draw, line = []\<rparr>"
    by (simp add: calculateWinner_def)
next
  assume "(\<forall>l\<in>set lines. \<not> complete squares l) \<and> None \<in> set squares"
  then have "scanLines squares lines = None" "None \<in> set squares"
    by (simp_all add: scanLines_none list_all_iff)
  then show "calculateWinner squares = None"
    by (simp add: calculateWinner_def)
qed

text \<open>
  On a board where the first column and a diagonal are both complete the column, earlier
  in the scan, is reported; a full board without a complete line is a draw; the empty
  board has no result.
\<close>

theorem calculateWinner_scan_order_witness:
  "calculateWinner
     [Some MarkX, Some MarkO, Some MarkO,
      Some MarkX, Some MarkX, Some MarkO,
      Some MarkX, None, Some MarkX]
     = Some \<lparr>winner = Won MarkX, line = [0, 3, 6]\<rparr>
   \<and> calculateWinner
        [Some MarkX, Some MarkO, Some MarkX,
         Some MarkO, Some MarkX, Some MarkO,
         Some MarkO, Some MarkX, Some MarkO]
        = Some \<lparr>winner = Draw, line = []\<rparr>
   \<and> calculateWinner emptyBoard = None"
proof -
  let ?w = "[Some MarkX, Some MarkO, Some MarkO,
             Some MarkX, Some MarkX, Some MarkO,
             Some MarkX, None, Some MarkX]"
  let ?d = "[Some MarkX, Some MarkO, Some MarkX,
             Some MarkO, Some MarkX, Some MarkO,
             Some MarkO, Some MarkX, Some MarkO]"
  have w: "3 < length lines \<and> complete ?w (lines ! 3)
      \<and> (\<forall>j<3. \<not> complete ?w (lines ! j))
      \<and> cellAt ?w (fst (lines ! 3)) = Some MarkX"
    by (simp add: complete_def lines_def cellAt_def eval_nat_numeral All_less_Suc)
  have d: "(\<forall>l\<in>set lines. \<not> complete ?d l) \<and> None \<notin> set ?d"
    by (simp add: complete_def lines_def cellAt_def)
  have e: "(\<forall>l\<in>set lines. \<not> complete emptyBoard l) \<and> None \<in> set emptyBoard"
    by (simp add: complete_def lines_def cellAt_def emptyBoard_def)
  have i: "indices (lines ! 3) = [0, 3, 6]"
    by (simp add: indices_def lines_def)
  from w i calculateWinner_scan_order [where squares = ?w and k = 3 and m = MarkX]
  have 1: "calculateWinner ?w = Some \<lparr>winner = Won MarkX, line = [0, 3, 6]\<rparr>"
    by simp
  from d calculateWinner_scan_order [where squares = ?d]
  have 2: "calculateWinner ?d = Some \<lparr>winner = Draw, line = []\<rparr>"
    by blast
  from e calculateWinner_scan_order [where squares = emptyBoard]
  have 3: "calculateWinner emptyBoard = None"
    by blast
  from 1 2 3 show ?thesis by simp
qed

section \<open>Properties of findBestMove\<close>

declare tryMark.simps [simp del] anyFree.simps [simp del]

lemma tryMark_Some:
  "tryMark m b i = Some k \<Longrightarrow>
     i \<le> k \<and> winsBy m b k \<and> (\<forall>j. i \<le> j \<and> j < k \<longrightarrow> \<not> winsBy m b j)"
proof (induction m b i rule: tryMark.induct)
  case (1 m b i)
  show ?case
  proof (cases "i < 9 \<and> winsBy m b i")
    case True
    with "1.prems" have "k = i"
      by (simp add: tryMark.simps [of m b i] winsBy_def emptyAt_def)
    with True show ?thesis by auto
  next
    case False
    with "1.prems" have i9: "i < 9" and nw: "\<not> winsBy m b i"
      and rec: "tryMark m b (i + 1) = Some k"
      by (auto simp: tryMark.simps [of m b i] winsBy_def emptyAt_def split: if_splits)
    from nw i9 have g: "\<not> (cellAt b i = None
        \<and> map_option winner (calculateWinner (b[i := Some m])) = Some (Won m))"
      by (simp add: winsBy_def emptyAt_def)
    from "1.IH" [OF i9 g rec] have ih: "i + 1 \<le> k" "winsBy m b k"
      "\<forall>j. i + 1 \<le> j \<and> j < k \<longrightarrow> \<not> winsBy m b j" by simp_all
    have "\<not> winsBy m b j" if "i \<le> j" "j < k" for j
    proof (cases "j = i")
      case True with nw show ?thesis by simp
    next
      case False with that ih(3) show ?thesis by simp
    qed
    with ih show ?thesis by simp
  qed
qed

lemma tryMark_None:
  "tryMark m b i = None \<Longrightarrow> i \<le> j \<Longrightarrow> \<not> winsBy m b j"
proof (induction m b i rule: tryMark.induct)
  case (1 m b i)
  show ?case
  proof (cases "i < 9")
    case True
    with "1.prems"(1) have g: "\<not> (cellAt b i = None
        \<and> map_option winner (calculateWinner (b[i := Some m])) = Some (Won m))"
      and rec: "tryMark m b (i + 1) = None"
      by (auto simp: tryMark.simps [of m b i] split: if_splits)
    show ?thesis
    proof (cases "j = i")
      case True with g show ?thesis by (auto simp: winsBy_def emptyAt_def)
    next
      case False
      with "1.prems"(2) have "i + 1 \<le> j" by simp
      from "1.IH" [OF \<open>i < 9\<close> g rec this] show ?thesis .
    qed
  next
    case False
    with "1.prems"(2) show ?thesis by (simp add: winsBy_def emptyAt_def)
  qed
qed

lemma lowest_unique: "lowest P k \<Longrightarrow> lowest P k' \<Longrightarrow> k = k'"
  unfolding lowest_def by (meson nat_neq_iff)

lemma tryMark_lowest: "(tryMark m b 0 = Some k) = lowest (winsBy m b) k"
proof
  assume "tryMark m b 0 = Some k"
  from tryMark_Some [OF this] show "lowest (winsBy m b) k" by (simp add: lowest_def)
next
  assume l: "lowest (winsBy m b) k"
  show "tryMark m b 0 = Some k"
  proof (cases "tryMark m b 0")
    case None
    from tryMark_None [OF this, of k] l show ?thesis by (simp add: lowest_def)
  next
    case (Some k')
    from tryMark_Some [OF this] have "lowest (winsBy m b) k'" by (simp add: lowest_def)
    with l have "k = k'" by (rule lowest_unique)
    with Some show ?thesis by simp
  qed
qed

lemma tryMark_none_iff: "(tryMark m b 0 = None) = (\<forall>j. \<not> winsBy m b j)"
proof
  assume "tryMark m b 0 = None"
  then show "\<forall>j. \<not> winsBy m b j" using tryMark_None by blast
next
  assume a: "\<forall>j. \<not> winsBy m b j"
  show "tryMark m b 0 = None"
  proof (cases "tryMark m b 0")
    case (Some k)
    from tryMark_Some [OF this] a show ?thesis by simp
  qed simp
qed

lemma anyFree_Some:
  "anyFree b i = Some k \<Longrightarrow>
     i \<le> k \<and> emptyAt b k \<and> (\<forall>j. i \<le> j \<and> j < k \<longrightarrow> \<not> emptyAt b j)"
proof (induction b i rule: anyFree.induct)
  case (1 b i)
  show ?case
  proof (cases "i < 9 \<and> cellAt b i = None")
    case True
    with "1.prems" have "k = i"
      by (simp add: anyFree.simps [of b i])
    with True show ?thesis by (auto simp: emptyAt_def)
  next
    case False
    with "1.prems" have i9: "i < 9" and ne: "cellAt b i \<noteq> None"
      and rec: "anyFree b (i + 1) = Some k"
      by (auto simp: anyFree.simps [of b i] split: if_splits)
    from "1.IH" [OF i9 ne rec] have ih: "i + 1 \<le> k" "emptyAt b k"
      "\<forall>j. i + 1 \<le> j \<and> j < k \<longrightarrow> \<not> emptyAt b j" by simp_all
    have "\<not> emptyAt b j" if "i \<le> j" "j < k" for j
    proof (cases "j = i")
      case True with ne show ?thesis by (simp add: emptyAt_def)
    next
      case False with that ih(3) show ?thesis by simp
    qed
    with ih show ?thesis by simp
  qed
qed

lemma anyFree_None:
  "anyFree b i = None \<Longrightarrow> i \<le> j \<Longrightarrow> \<not> emptyAt b j"
proof (induction b i rule: anyFree.induct)
  case (1 b i)
  show ?case
  proof (cases "i < 9")
    case True
    with "1.prems"(1) have ne: "cellAt b i \<noteq> None"
      and rec: "anyFree b (i + 1) = None"
      by (auto simp: anyFree.simps [of b i] split: if_splits)
    show ?thesis
    proof (cases "j = i")
      case True with ne show ?thesis by (simp add: emptyAt_def)
    next
      case False
      with "1.prems"(2) have "i + 1 \<le> j" by simp
      from "1.IH" [OF \<open>i < 9\<close> ne rec this] show ?thesis .
    qed
  next
    case False
    with "1.prems"(2) show ?thesis by (simp add: emptyAt_def)
  qed
qed

lemma anyFree_lowest: "(anyFree b 0 = Some k) = lowest (emptyAt b) k"
proof
  assume "anyFree b 0 = Some k"
  from anyFree_Some [OF this] show "lowest (emptyAt b) k" by (simp add: lowest_def)
next
  assume l: "lowest (emptyAt b) k"
  show "anyFree b 0 = Some k"
  proof (cases "anyFree b 0")
    case None
    from anyFree_None [OF this, of k] l show ?thesis by (simp add: lowest_def)
  next
    case (Some k')
    from anyFree_Some [OF this] have "lowest (emptyAt b) k'" by (simp add: lowest_def)
    with l have "k = k'" by (rule lowest_unique)
    with Some show ?thesis by simp
  qed
qed

lemma firstFree_corners: "firstFree b [0, 2, 6, 8] = find (emptyAt b) [0, 2, 6, 8]"
  by (simp add: emptyAt_def)

lemma firstFree_Some: "firstFree b cs = Some i \<Longrightarrow> i \<in> set cs \<and> cellAt b i = None"
  by (induction cs) (auto split: if_splits)

lemma emptyAt_set: "length b = 9 \<Longrightarrow> (\<exists>i. emptyAt b i) = (None \<in> set b)"
  by (auto simp: emptyAt_def cellAt_def in_set_conv_nth)

lemma no_winsBy_bounded: "(\<forall>j. \<not> winsBy m b j) = (\<forall>j<9. \<not> winsBy m b j)"
  by (auto simp: winsBy_def emptyAt_def)

lemmas board_eval =
  winsBy_def emptyAt_def cellAt_def calculateWinner_def lines_def eval_nat_numeral All_less_Suc

text \<open>
  Claim C3. On a nine-cell board \<open>findBestMove\<close> applies five rules in order, the
  computer playing O: the lowest empty cell where placing O makes \<open>calculateWinner\<close>
  report a win for O; else the lowest empty cell where placing X makes it report a win
  for X; else cell 4 if empty; else the first empty cell of 0, 2, 6, 8 in that order;
  else the lowest empty cell. The first rule has no further condition: a
  win-completing cell is chosen whatever else is available.
\<close>

theorem findBestMove_priority:
  assumes "length b = 9"
  shows
  "(lowest (winsBy MarkO b) i \<longrightarrow> findBestMove b = Some i)
   \<and> ((\<forall>j. \<not> winsBy MarkO b j) \<and> lowest (winsBy MarkX b) i \<longrightarrow> findBestMove b = Some i)
   \<and> ((\<forall>j. \<not> winsBy MarkO b j) \<and> (\<forall>j. \<not> winsBy MarkX b j) \<and> emptyAt b 4
        \<longrightarrow> findBestMove b = Some 4)
   \<and> ((\<forall>j. \<not> winsBy MarkO b j) \<and> (\<forall>j. \<not> winsBy MarkX b j) \<and> \<not> emptyAt b 4
        \<and> find (emptyAt b) [0, 2, 6, 8] = Some i \<longrightarrow> findBestMove b = Some i)
   \<and> ((\<forall>j. \<not> winsBy MarkO b j) \<and> (\<forall>j. \<not> winsBy MarkX b j) \<and> \<not> emptyAt b 4
        \<and> find (emptyAt b) [0, 2, 6, 8] = None \<and> lowest (emptyAt b) i
        \<longrightarrow> findBestMove b = Some i)"
proof (intro conjI impI)
  assume "lowest (winsBy MarkO b) i"
  then have "tryMark MarkO b 0 = Some i" by (simp add: tryMark_lowest)
  then show "findBestMove b = Some i" by (simp add: findBestMove_def)
next
  assume "(\<forall>j. \<not> winsBy MarkO b j) \<and> lowest (winsBy MarkX b) i"
  then have "tryMark MarkO b 0 = None" "tryMark MarkX b 0 = Some i"
    by (simp_all add: tryMark_lowest tryMark_none_iff)
  then show "findBestMove b = Some i" by (simp add: findBestMove_def)
next
  assume "(\<forall>j. \<not> winsBy MarkO b j) \<and> (\<forall>j. \<not> winsBy MarkX b j) \<and> emptyAt b 4"
  then have "tryMark MarkO b 0 = None" "tryMark MarkX b 0 = None" "cellAt b 4 = None"
    by (simp_all add: tryMark_none_iff emptyAt_def)
  then show "findBestMove b = Some 4" by (simp add: findBestMove_def)
next
  assume a: "(\<forall>j. \<not> winsBy MarkO b j) \<and> (\<forall>j. \<not> winsBy MarkX b j) \<and> \<not> emptyAt b 4
        \<and> find (emptyAt b) [0, 2, 6, 8] = Some i"
  then have "find (emptyAt b) [0, 2, 6, 8] = Some i" by blast
  then have c: "firstFree b [0, 2, 6, 8] = Some i" by (simp only: firstFree_corners)
  from a have "tryMark MarkO b 0 = None" "tryMark MarkX b 0 = None" "cellAt b 4 \<noteq> None"
    by (simp_all add: tryMark_none_iff emptyAt_def)
  with c show "findBestMove b = Some i"
    by (auto simp: findBestMove_def simp del: firstFree.simps)
next
  assume a: "(\<forall>j. \<not> winsBy MarkO b j) \<and> (\<forall>j. \<not> winsBy MarkX b j) \<and> \<not> emptyAt b 4
        \<and> find (emptyAt b) [0, 2, 6, 8] = None \<and> lowest (emptyAt b) i"
  then have "find (emptyAt b) [0, 2, 6, 8] = None" by blast
  then have c: "firstFree b [0, 2, 6, 8] = None" by (simp only: firstFree_corners)
  from a have "lowest (emptyAt b) i" by blast
  then have d: "anyFree b 0 = Some i" by (simp only: anyFree_lowest)
  from a have "tryMark MarkO b 0 = None" "tryMark MarkX b 0 = None" "cellAt b 4 \<noteq> None"
    by (simp_all add: tryMark_none_iff emptyAt_def)
  with c d show "findBestMove b = Some i"
    by (auto simp: findBestMove_def simp del: firstFree.simps)
qed

text \<open>
  One board for each rule. On the first, O completes the bottom row at 8 although X
  threatens at 2 and the centre is free; the second is the board of the specification's
  third scenario.
\<close>

theorem findBestMove_priority_witness:
  "findBestMove
     [Some MarkX, Some MarkX, None, Some MarkX, None, None, Some MarkO, Some MarkO, None]
     = Some 8
   \<and> findBestMove
     [Some MarkX, Some MarkX, None, Some MarkO, None, None, None, None, None]
     = Some 2
   \<and> findBestMove
     [Some MarkX, None, None, None, None, None, None, None, None]
     = Some 4
   \<and> findBestMove
     [None, None, None, None, Some MarkX, None, None, None, None]
     = Some 0
   \<and> findBestMove
     [Some MarkX, None, Some MarkO, Some MarkO, Some MarkX, Some MarkX, Some MarkX, None, Some MarkO]
     = Some 1"
proof -
  let ?b1 = "[Some MarkX, Some MarkX, None, Some MarkX, None, None, Some MarkO, Some MarkO, None]"
  let ?b2 = "[Some MarkX, Some MarkX, None, Some MarkO, None, None, None, None, None]"
  let ?b3 = "[Some MarkX, None, None, None, None, None, None, None, None]"
  let ?b4 = "[None, None, None, None, Some MarkX, None, None, None, None]"
  let ?b5 = "[Some MarkX, None, Some MarkO, Some MarkO, Some MarkX, Some MarkX, Some MarkX, None, Some MarkO]"
  have h1: "lowest (winsBy MarkO ?b1) 8"
    by (simp add: lowest_def board_eval)
  have n2: "\<forall>j. \<not> winsBy MarkO ?b2 j"
    by (simp add: no_winsBy_bounded) (simp add: board_eval)
  have h2: "lowest (winsBy MarkX ?b2) 2"
    by (simp add: lowest_def board_eval)
  have n3: "\<forall>j. \<not> winsBy MarkO ?b3 j" "\<forall>j. \<not> winsBy MarkX ?b3 j"
    by (simp_all add: no_winsBy_bounded) (simp_all add: board_eval)
  have h3: "emptyAt ?b3 4"
    by (simp add: emptyAt_def cellAt_def)
  have n4: "\<forall>j. \<not> winsBy MarkO ?b4 j" "\<forall>j. \<not> winsBy MarkX ?b4 j"
    by (simp_all add: no_winsBy_bounded) (simp_all add: board_eval)
  have h4: "\<not> emptyAt ?b4 4" "find (emptyAt ?b4) [0, 2, 6, 8] = Some 0"
    by (simp_all add: emptyAt_def cellAt_def)
  have n5: "\<forall>j. \<not> winsBy MarkO ?b5 j" "\<forall>j. \<not> winsBy MarkX ?b5 j"
    by (simp_all add: no_winsBy_bounded) (simp_all add: board_eval)
  have h5: "\<not> emptyAt ?b5 4" "find (emptyAt ?b5) [0, 2, 6, 8] = None"
    "lowest (emptyAt ?b5) 1"
    by (simp_all add: lowest_def emptyAt_def cellAt_def)
  from h1 findBestMove_priority [where b = ?b1 and i = 8]
  have 1: "findBestMove ?b1 = Some 8" by simp
  from n2 h2 findBestMove_priority [where b = ?b2 and i = 2]
  have 2: "findBestMove ?b2 = Some 2" by simp
  from n3 h3 findBestMove_priority [where b = ?b3]
  have 3: "findBestMove ?b3 = Some 4" by simp
  from n4 h4 findBestMove_priority [where b = ?b4 and i = 0]
  have 4: "findBestMove ?b4 = Some 0" by simp
  from n5 h5 findBestMove_priority [where b = ?b5 and i = 1]
  have 5: "findBestMove ?b5 = Some 1" by simp
  from 1 2 3 4 5 show ?thesis by simp
qed

lemma cellAt_update:
  "cellAt (b[i := v]) j = (if j = i \<and> i < length b then v else cellAt b j)"
  by (simp add: cellAt_def)

lemma scanLines_Some_line:
  "scanLines squares ls = Some r \<Longrightarrow>
     \<exists>l\<in>set ls. complete squares l \<and> winner r = Won (the (cellAt squares (fst l)))"
  by (induction ls) (auto simp: scanLines_Cons simp del: scanLines.simps(2) split: if_splits)

lemma complete_after_place:
  assumes "i < length b" and "\<not> complete b l" and "complete (b[i := Some m]) l"
  shows "cellAt (b[i := Some m]) (fst l) = Some m"
proof -
  obtain a c d where l: "l = (a, c, d)" by (cases l)
  have "a = i \<or> c = i \<or> d = i"
  proof (rule ccontr)
    assume "\<not> (a = i \<or> c = i \<or> d = i)"
    with assms(3) l have "complete b l" by (auto simp: complete_def cellAt_update)
    with assms(2) show False by simp
  qed
  with assms(1,3) l show ?thesis
    by (auto simp: complete_def cellAt_update split: if_splits)
qed

text \<open>
  The controller calls \<open>findBestMove\<close> only on boards without a result. There, placing
  a mark makes \<open>calculateWinner\<close> report a win for it exactly when the placement
  completes a line.
\<close>

lemma winsBy_completes_line:
  assumes "length b = 9" and "\<forall>l\<in>set lines. \<not> complete b l" and "emptyAt b i"
  shows "winsBy m b i = (\<exists>l\<in>set lines. complete (b[i := Some m]) l)"
proof
  assume "winsBy m b i"
  then have w: "map_option winner (calculateWinner (b[i := Some m])) = Some (Won m)"
    by (simp add: winsBy_def)
  have "scanLines (b[i := Some m]) lines \<noteq> None"
  proof
    assume "scanLines (b[i := Some m]) lines = None"
    with w show False by (simp add: calculateWinner_def split: if_splits)
  qed
  then show "\<exists>l\<in>set lines. complete (b[i := Some m]) l"
    by (simp add: scanLines_none list_all_iff)
next
  assume "\<exists>l\<in>set lines. complete (b[i := Some m]) l"
  then have "scanLines (b[i := Some m]) lines \<noteq> None"
    by (simp add: scanLines_none list_all_iff)
  then obtain r where r: "scanLines (b[i := Some m]) lines = Some r" by auto
  from scanLines_Some_line [OF r] obtain l where l: "l \<in> set lines"
    "complete (b[i := Some m]) l" "winner r = Won (the (cellAt (b[i := Some m]) (fst l)))"
    by blast
  from assms(3) assms(1) have i: "i < length b" by (simp add: emptyAt_def)
  from l(1) assms(2) have "\<not> complete b l" by simp
  from complete_after_place [OF i this l(2)] l(3) have "winner r = Won m" by simp
  with r assms(3) show "winsBy m b i"
    by (simp add: winsBy_def calculateWinner_def)
qed

lemma findBestMove_Some_empty:
  assumes "findBestMove b = Some i"
  shows "emptyAt b i"
proof (cases "tryMark MarkO b 0")
  case (Some k)
  with assms have "k = i" by (simp add: findBestMove_def)
  with tryMark_Some [OF Some] show ?thesis by (simp add: winsBy_def)
next
  case n1: None
  show ?thesis
  proof (cases "tryMark MarkX b 0")
    case (Some k)
    with assms n1 have "k = i" by (simp add: findBestMove_def)
    with tryMark_Some [OF Some] show ?thesis by (simp add: winsBy_def)
  next
    case n2: None
    show ?thesis
    proof (cases "cellAt b 4 = None")
      case True
      with assms n1 n2 have "i = 4" by (simp add: findBestMove_def)
      with True show ?thesis by (simp add: emptyAt_def)
    next
      case n3: False
      show ?thesis
      proof (cases "firstFree b [0, 2, 6, 8]")
        case (Some k)
        with assms n1 n2 n3 have "k = i"
          by (auto simp: findBestMove_def simp del: firstFree.simps)
        with firstFree_Some [OF Some] show ?thesis by (auto simp: emptyAt_def)
      next
        case None
        with assms n1 n2 n3 have "anyFree b 0 = Some i"
          by (auto simp: findBestMove_def simp del: firstFree.simps)
        from anyFree_Some [OF this] show ?thesis by simp
      qed
    qed
  qed
qed

lemma findBestMove_None_full:
  assumes "findBestMove b = None"
  shows "\<not> emptyAt b j"
proof -
  from assms have "anyFree b 0 = None"
    by (auto simp: findBestMove_def simp del: firstFree.simps split: option.splits if_splits)
  from anyFree_None [OF this, of j] show ?thesis by simp
qed

text \<open>
  Claim C7. On a nine-cell board \<open>findBestMove\<close> returns \<^verbatim>\<open>null\<close> exactly when no cell is
  empty; any index it returns is below nine and empty on the input board; and when some
  cell is empty it does return such an index.
\<close>

theorem findBestMove_null_iff_full:
  assumes "length b = 9"
  shows "((findBestMove b = None) = (None \<notin> set b))
    \<and> (\<forall>i. findBestMove b = Some i \<longrightarrow> i < 9 \<and> b ! i = None)
    \<and> (None \<in> set b \<longrightarrow> (\<exists>i. findBestMove b = Some i \<and> i < 9 \<and> b ! i = None))"
proof -
  have some: "i < 9 \<and> b ! i = None" if "findBestMove b = Some i" for i
    using findBestMove_Some_empty [OF that] assms by (auto simp: emptyAt_def cellAt_def)
  have iff: "(findBestMove b = None) = (None \<notin> set b)"
  proof
    assume "findBestMove b = None"
    then have "\<forall>j. \<not> emptyAt b j" using findBestMove_None_full by blast
    with emptyAt_set [OF assms] show "None \<notin> set b" by simp
  next
    assume "None \<notin> set b"
    with emptyAt_set [OF assms] have ne: "\<forall>j. \<not> emptyAt b j" by simp
    show "findBestMove b = None"
    proof (cases "findBestMove b")
      case (Some i)
      from findBestMove_Some_empty [OF this] ne show ?thesis by simp
    qed simp
  qed
  have ex: "\<exists>i. findBestMove b = Some i \<and> i < 9 \<and> b ! i = None" if "None \<in> set b"
  proof -
    from that iff obtain i where "findBestMove b = Some i" by auto
    with some show ?thesis by blast
  qed
  from some iff ex show ?thesis by blast
qed

text \<open>A board with empty cells, and the full board of the specification's second scenario.\<close>

theorem findBestMove_null_iff_full_witness:
  "(\<exists>i. findBestMove
          [Some MarkX, Some MarkO, None, None, Some MarkX, None, None, None, Some MarkO]
          = Some i
        \<and> i < 9
        \<and> [Some MarkX, Some MarkO, None, None, Some MarkX, None, None, None, Some MarkO] ! i
            = None)
   \<and> findBestMove
        [Some MarkX, Some MarkO, Some MarkX,
         Some MarkO, Some MarkX, Some MarkO,
         Some MarkO, Some MarkX, Some MarkO] = None"
  using
    findBestMove_null_iff_full
      [of "[Some MarkX, Some MarkO, None, None, Some MarkX, None, None, None, Some MarkO]"]
    findBestMove_null_iff_full
      [of "[Some MarkX, Some MarkO, Some MarkX,
            Some MarkO, Some MarkX, Some MarkO,
            Some MarkO, Some MarkX, Some MarkO]"]
  by simp

section \<open>Properties of the session\<close>

lemma calculateWinner_emptyBoard: "calculateWinner emptyBoard = None"
  by (simp add: calculateWinner_def lines_def cellAt_def emptyBoard_def)

lemma statusEffect_frame:
  "board (statusEffect r) = board r" "xIsNext (statusEffect r) = xIsNext r"
  "gameMode (statusEffect r) = gameMode r"
  by (simp_all add: statusEffect_def split: option.splits)

lemma gameEffect_frame:
  "board (gameEffect r) = board r" "xIsNext (gameEffect r) = xIsNext r"
  "gameMode (gameEffect r) = gameMode r"
  by (simp_all add: gameEffect_def statusEffect_frame)

lemma gameEffect_active:
  "isGameActive (gameEffect r) = (isGameActive r \<and> calculateWinner (board r) = None)"
  by (auto simp: gameEffect_def statusEffect_def split: option.splits)

lemma gameEffect_winnerLine:
  "winnerLine (gameEffect r) = (case calculateWinner (board r) of None \<Rightarrow> [] | Some res \<Rightarrow> line res)"
  by (auto simp: gameEffect_def statusEffect_def split: option.splits)

lemma rerender_now:
  "board (now (rerender r)) = board r" "xIsNext (now (rerender r)) = xIsNext r"
  "gameMode (now (rerender r)) = gameMode r"
  by (simp_all add: rerender_def gameEffect_frame)

lemma rerender_active:
  "isGameActive (now (rerender r)) = (isGameActive r \<and> calculateWinner (board r) = None)"
  by (simp add: rerender_def gameEffect_active)

lemma rerender_winnerLine:
  "winnerLine (now (rerender r)) =
     (case calculateWinner (board r) of None \<Rightarrow> [] | Some res \<Rightarrow> line res)"
  by (simp add: rerender_def gameEffect_winnerLine)

lemma rerender_pending: "pending (rerender r) = (if startsTimer r then Some r else None)"
  by (simp add: rerender_def)

lemma handleRestart_fields:
  "board (handleRestart s) = emptyBoard" "xIsNext (handleRestart s)"
  "isGameActive (handleRestart s)" "gameMode (handleRestart s) = gameMode s"
  by (simp_all add: handleRestart_def)

lemma rerender_handleRestart:
  "board (now (rerender (handleRestart s))) = emptyBoard"
  "xIsNext (now (rerender (handleRestart s)))"
  "isGameActive (now (rerender (handleRestart s)))"
  "gameMode (now (rerender (handleRestart s))) = gameMode s"
  "pending (rerender (handleRestart s)) = None"
  by (simp_all add: rerender_now rerender_pending handleRestart_fields startsTimer_def
      rerender_active calculateWinner_emptyBoard)

text \<open>
  Claim C4. After the restart button, and after a change of mode, whatever the session
  was: the board is nine empty cells, X is next, the game is active (the effect finds no
  result on the empty board), and no timer is pending, the cleanup of the previous
  effect having cleared it, so that a timer firing next finds nothing to run. The new
  mode is the one selected.
\<close>

theorem reset_clears_session:
  "board (now (restartEvent s)) = replicate 9 None
   \<and> xIsNext (now (restartEvent s))
   \<and> isGameActive (now (restartEvent s))
   \<and> pending (restartEvent s) = None
   \<and> timerEvent (restartEvent s) = restartEvent s
   \<and> board (now (modeChangeEvent v s)) = replicate 9 None
   \<and> xIsNext (now (modeChangeEvent v s))
   \<and> isGameActive (now (modeChangeEvent v s))
   \<and> gameMode (now (modeChangeEvent v s)) = v
   \<and> pending (modeChangeEvent v s) = None
   \<and> timerEvent (modeChangeEvent v s) = modeChangeEvent v s"
  by (simp add: restartEvent_def modeChangeEvent_def handleModeChange_def
      rerender_handleRestart timerEvent_def emptyBoard_def [symmetric])

text \<open>
  A restart while the computer's timer is pending: the timer is gone, and its firing
  afterwards leaves the empty board.
\<close>

theorem reset_clears_session_witness:
  "pending (run [ModeChange AI, Click 0] mount) \<noteq> None
   \<and> pending (restartEvent (run [ModeChange AI, Click 0] mount)) = None
   \<and> board (now (restartEvent (run [ModeChange AI, Click 0] mount))) = replicate 9 None
   \<and> timerEvent (restartEvent (run [ModeChange AI, Click 0] mount))
       = restartEvent (run [ModeChange AI, Click 0] mount)"
proof -
  have p: "pending (run [ModeChange AI, Click 0] mount) \<noteq> None"
    by code_simp
  from p reset_clears_session [of "run [ModeChange AI, Click 0] mount"]
  show ?thesis by blast
qed

text \<open>
  Claim C9. \<open>handleRestart\<close> keeps \<open>gameMode\<close> and gives each of the six other cells its
  initial value, whatever it held; the effect that follows keeps the mode too.
\<close>

theorem handleRestart_keeps_mode:
  "gameMode (handleRestart s) = gameMode s
   \<and> handleRestart s =
       \<lparr>board = emptyBoard, xIsNext = True, gameMode = gameMode s, isGameActive = True,
        status = [], winnerLine = [], aiThinking = False\<rparr>
   \<and> gameMode (now (restartEvent \<sigma>)) = gameMode (now \<sigma>)"
  by (cases s) (simp add: handleRestart_def restartEvent_def rerender_now)

theorem handleRestart_keeps_mode_witness:
  "gameMode (now (run [ModeChange AI, Click 0] mount)) = AI
   \<and> gameMode (handleRestart (now (run [ModeChange AI, Click 0] mount))) = AI
   \<and> gameMode (now (restartEvent (run [ModeChange AI, Click 0] mount))) = AI"
proof -
  have m: "gameMode (now (run [ModeChange AI, Click 0] mount)) = AI"
    by code_simp
  from m handleRestart_keeps_mode
    [of "now (run [ModeChange AI, Click 0] mount)" "run [ModeChange AI, Click 0] mount"]
  show ?thesis by simp
qed

text \<open>
  Claim C5. A click on an occupied cell, a click while the game is not active, and a
  click in computer mode while O is to move each leave the whole session as it was:
  the state of the component and the pending timer.
\<close>

theorem ignored_click_is_noop:
  "(cellAt (board (now s)) i \<noteq> None \<longrightarrow>
      step (Click i) s = s \<and> handleClick (now s) (now s) i = now s)
   \<and> (\<not> isGameActive (now s) \<longrightarrow>
      step (Click i) s = s \<and> handleClick (now s) (now s) i = now s)
   \<and> (gameMode (now s) = AI \<and> \<not> xIsNext (now s) \<longrightarrow>
      step (Click i) s = s \<and> handleClick (now s) (now s) i = now s)"
  by (simp add: clickEvent_def handleClick_def clickIgnored_def)

text \<open>
  One session for each case: cell 0 clicked twice; a click after X has won with the top
  row; a click while the computer is to move.
\<close>

theorem ignored_click_is_noop_witness:
  "step (Click 0) (run [Click 0] mount) = run [Click 0] mount
   \<and> step (Click 5) (run [Click 0, Click 4, Click 1, Click 7, Click 2] mount)
       = run [Click 0, Click 4, Click 1, Click 7, Click 2] mount
   \<and> step (Click 1) (run [ModeChange AI, Click 0] mount)
       = run [ModeChange AI, Click 0] mount"
proof -
  have 1: "cellAt (board (now (run [Click 0] mount))) 0 \<noteq> None"
    by code_simp
  have 2: "\<not> isGameActive (now (run [Click 0, Click 4, Click 1, Click 7, Click 2] mount))"
    by code_simp
  have 3: "gameMode (now (run [ModeChange AI, Click 0] mount)) = AI
      \<and> \<not> xIsNext (now (run [ModeChange AI, Click 0] mount))"
    by code_simp
  from 1 ignored_click_is_noop [of "run [Click 0] mount" 0]
  have a: "step (Click 0) (run [Click 0] mount) = run [Click 0] mount"
    by blast
  from 2 ignored_click_is_noop
    [of "run [Click 0, Click 4, Click 1, Click 7, Click 2] mount" 5]
  have b: "step (Click 5) (run [Click 0, Click 4, Click 1, Click 7, Click 2] mount)
       = run [Click 0, Click 4, Click 1, Click 7, Click 2] mount"
    by blast
  from 3 ignored_click_is_noop [of "run [ModeChange AI, Click 0] mount" 1]
  have c: "step (Click 1) (run [ModeChange AI, Click 0] mount)
       = run [ModeChange AI, Click 0] mount"
    by blast
  from a b c show ?thesis by blast
qed

lemma scanLines_Some:
  "scanLines squares ls = Some res \<Longrightarrow> (\<exists>m. winner res = Won m) \<and> length (line res) = 3"
  by (induction ls) (auto simp: scanLines_Cons indices_def simp del: scanLines.simps(2) split: if_splits prod.splits)

lemma calculateWinner_line:
  assumes "calculateWinner b = Some res"
  shows "(winner res = Draw) = (line res = [])"
proof (cases "scanLines b lines")
  case None
  with assms show ?thesis by (auto simp: calculateWinner_def split: if_splits)
next
  case (Some r)
  with assms have "r = res" by (simp add: calculateWinner_def)
  with scanLines_Some [OF Some] show ?thesis by auto
qed

text \<open>
  Claim C10. The select is disabled exactly when the game is not active and the stored
  winning line is non-empty. In the render where \<open>calculateWinner\<close> reports a win, once
  its effect has run, the select is disabled and nothing but a restart changes the
  session; after the restart the select is enabled again. Where it reports a draw, whose
  line is empty, the select stays enabled and a change of mode resets the game.
\<close>

theorem mode_select_disabled_after_win:
  "modeSelectDisabled s = (\<not> isGameActive s \<and> winnerLine s \<noteq> [])
   \<and> (calculateWinner (board r) = Some res \<and> winner res = Won m \<longrightarrow>
        modeSelectDisabled (now (rerender r))
        \<and> step (ModeChange v) (rerender r) = rerender r
        \<and> step (Click i) (rerender r) = rerender r
        \<and> step TimerFires (rerender r) = rerender r
        \<and> \<not> modeSelectDisabled (now (step Restart (rerender r))))
   \<and> (calculateWinner (board r) = Some res \<and> winner res = Draw \<longrightarrow>
        \<not> modeSelectDisabled (now (rerender r))
        \<and> step (ModeChange v) (rerender r) = modeChangeEvent v (rerender r)
        \<and> board (now (step (ModeChange v) (rerender r))) = emptyBoard
        \<and> xIsNext (now (step (ModeChange v) (rerender r)))
        \<and> isGameActive (now (step (ModeChange v) (rerender r)))
        \<and> gameMode (now (step (ModeChange v) (rerender r))) = v)"
proof (intro conjI impI)
  show "modeSelectDisabled s = (\<not> isGameActive s \<and> winnerLine s \<noteq> [])"
    by (simp add: modeSelectDisabled_def)
next
  assume a: "calculateWinner (board r) = Some res \<and> winner res = Won m"
  with calculateWinner_line [of "board r" res] have l: "line res \<noteq> []" by auto
  from a l show d: "modeSelectDisabled (now (rerender r))"
    by (simp add: modeSelectDisabled_def rerender_active rerender_winnerLine)
  then show "step (ModeChange v) (rerender r) = rerender r" by simp
  from a show "step (Click i) (rerender r) = rerender r"
    by (simp add: clickEvent_def clickIgnored_def rerender_active)
  from a show "step TimerFires (rerender r) = rerender r"
    by (simp add: timerEvent_def rerender_pending startsTimer_def)
  show "\<not> modeSelectDisabled (now (step Restart (rerender r)))"
    by (simp add: modeSelectDisabled_def restartEvent_def rerender_handleRestart)
next
  assume a: "calculateWinner (board r) = Some res \<and> winner res = Draw"
  with calculateWinner_line [of "board r" res] have l: "line res = []" by auto
  from a l show d: "\<not> modeSelectDisabled (now (rerender r))"
    by (simp add: modeSelectDisabled_def rerender_active rerender_winnerLine)
  then show "step (ModeChange v) (rerender r) = modeChangeEvent v (rerender r)" by simp
  with d show "board (now (step (ModeChange v) (rerender r))) = emptyBoard"
    "xIsNext (now (step (ModeChange v) (rerender r)))"
    "isGameActive (now (step (ModeChange v) (rerender r)))"
    "gameMode (now (step (ModeChange v) (rerender r))) = v"
    by (simp_all add: modeChangeEvent_def handleModeChange_def rerender_handleRestart)
qed

text \<open>
  The first scenario of the specification, won by X with the top row, and a game played
  to a draw.
\<close>

theorem mode_select_disabled_after_win_witness:
  "modeSelectDisabled (now (run [Click 0, Click 4, Click 1, Click 7, Click 2] mount))
   \<and> step (ModeChange AI) (run [Click 0, Click 4, Click 1, Click 7, Click 2] mount)
       = run [Click 0, Click 4, Click 1, Click 7, Click 2] mount
   \<and> \<not> modeSelectDisabled
       (now (run [Click 0, Click 1, Click 2, Click 4, Click 3, Click 5, Click 7, Click 6,
                  Click 8] mount))
   \<and> board (now (step (ModeChange AI)
       (run [Click 0, Click 1, Click 2, Click 4, Click 3, Click 5, Click 7, Click 6,
             Click 8] mount))) = emptyBoard
   \<and> gameMode (now (step (ModeChange AI)
       (run [Click 0, Click 1, Click 2, Click 4, Click 3, Click 5, Click 7, Click 6,
             Click 8] mount))) = AI"
proof -
  let ?rw = "initialState\<lparr>board :=
      [Some MarkX, Some MarkX, Some MarkX, None, Some MarkO, None, None, Some MarkO, None],
      xIsNext := False\<rparr>"
  let ?rd = "initialState\<lparr>board :=
      [Some MarkX, Some MarkO, Some MarkX, Some MarkX, Some MarkO, Some MarkO,
       Some MarkO, Some MarkX, Some MarkX],
      xIsNext := False\<rparr>"
  have w: "run [Click 0, Click 4, Click 1, Click 7, Click 2] mount = rerender ?rw"
    by code_simp
  have d: "run [Click 0, Click 1, Click 2, Click 4, Click 3, Click 5, Click 7, Click 6,
      Click 8] mount = rerender ?rd"
    by code_simp
  have cw: "calculateWinner (board ?rw) = Some \<lparr>winner = Won MarkX, line = [0, 1, 2]\<rparr>
      \<and> winner \<lparr>winner = Won MarkX, line = [0, 1, 2]\<rparr> = Won MarkX"
    by code_simp
  have cd: "calculateWinner (board ?rd) = Some \<lparr>winner = Draw, line = []\<rparr>
      \<and> winner \<lparr>winner = Draw, line = []\<rparr> = Draw"
    by code_simp
  from cw mode_select_disabled_after_win
    [where r = ?rw and res = "\<lparr>winner = Won MarkX, line = [0, 1, 2]\<rparr>" and m = MarkX
       and v = AI]
  have 1: "modeSelectDisabled (now (rerender ?rw))
      \<and> step (ModeChange AI) (rerender ?rw) = rerender ?rw"
    by blast
  from cd mode_select_disabled_after_win
    [where r = ?rd and res = "\<lparr>winner = Draw, line = []\<rparr>" and v = AI]
  have 2: "\<not> modeSelectDisabled (now (rerender ?rd))
      \<and> board (now (step (ModeChange AI) (rerender ?rd))) = emptyBoard
      \<and> gameMode (now (step (ModeChange AI) (rerender ?rd))) = AI"
    by blast
  from 1 2 show ?thesis unfolding w d by blast
qed

lemma count_list_update_None:
  "i < length xs \<Longrightarrow> xs ! i = None \<Longrightarrow>
     count_list (xs[i := Some m]) (Some m') = count_list xs (Some m') + (if m = m' then 1 else 0)"
proof (induction xs arbitrary: i)
  case Nil
  then show ?case by simp
next
  case (Cons x xs)
  then show ?case by (cases i) auto
qed

lemma countMark_place:
  "i < length b \<Longrightarrow> b ! i = None \<Longrightarrow>
     countMark m' (b[i := Some m]) = countMark m' b + (if m = m' then 1 else 0)"
  by (simp add: countMark_def count_list_update_None)

lemma countMark_emptyBoard: "countMark m emptyBoard = 0"
  by (simp add: countMark_def emptyBoard_def)

lemma sessionInv_rerender:
  assumes "length (board r) = 9"
    and "countMark MarkX (board r) = countMark MarkO (board r) + (if xIsNext r then 0 else 1)"
  shows "sessionInv (rerender r)"
  using assms by (simp add: sessionInv_def rerender_now rerender_pending startsTimer_def)

lemma sessionInv_restart: "sessionInv (rerender (handleRestart s))"
  by (rule sessionInv_rerender)
     (simp_all add: handleRestart_fields countMark_emptyBoard, simp add: emptyBoard_def)

lemma timer_click_ignored: "gameMode r = AI \<Longrightarrow> \<not> xIsNext r \<Longrightarrow> clickIgnored r i"
  by (simp add: clickIgnored_def)

lemma timerCallback_no_move:
  "gameMode r = AI \<Longrightarrow> \<not> xIsNext r \<Longrightarrow> timerCallback r s = s\<lparr>aiThinking := False\<rparr>"
  by (simp add: timerCallback_def handleClick_def timer_click_ignored split: option.splits)

lemma timerEvent_no_move:
  assumes "sessionInv s"
  shows "timerEvent s = s
     \<or> timerEvent s = \<lparr>now = (now s)\<lparr>aiThinking := False\<rparr>, pending = None\<rparr>"
proof (cases "pending s")
  case None
  then show ?thesis by (simp add: timerEvent_def)
next
  case (Some r)
  with assms have r: "gameMode r = AI" "\<not> xIsNext r" by (simp_all add: sessionInv_def)
  with Some show ?thesis
    by (simp add: timerEvent_def timerCallback_no_move timer_click_ignored split: option.splits)
qed

lemma sessionInv_click:
  assumes "sessionInv s" and i: "i < length (board (now s))"
  shows "sessionInv (clickEvent i s)"
proof (cases "clickIgnored (now s) i")
  case True
  with assms show ?thesis by (simp add: clickEvent_def)
next
  case False
  then have "cellAt (board (now s)) i = None" by (simp add: clickIgnored_def)
  with i have n: "board (now s) ! i = None" by (simp add: cellAt_def)
  from assms have l: "length (board (now s)) = 9"
    and c: "countMark MarkX (board (now s))
          = countMark MarkO (board (now s)) + (if xIsNext (now s) then 0 else 1)"
    by (simp_all add: sessionInv_def)
  have "sessionInv (rerender (handleClick (now s) (now s) i))"
    by (rule sessionInv_rerender)
       (use False l c i n in \<open>simp_all add: handleClick_def countMark_place\<close>)
  with False show ?thesis by (simp add: clickEvent_def)
qed

lemma sessionInv_timer:
  assumes "sessionInv s"
  shows "sessionInv (timerEvent s)"
  using timerEvent_no_move [OF assms] assms
  by (auto simp: sessionInv_def)

lemma sessionInv_step: "sessionInv s \<Longrightarrow> sessionInv (step e s)"
  by (cases e)
     (simp_all add: sessionInv_click sessionInv_timer restartEvent_def modeChangeEvent_def
        handleModeChange_def sessionInv_restart)

lemma sessionInv_mount: "sessionInv mount"
  unfolding mount_def
  by (rule sessionInv_rerender)
     (simp_all add: initialState_def countMark_emptyBoard, simp add: emptyBoard_def)

lemma reachable_sessionInv: "reachable s \<Longrightarrow> sessionInv s"
  by (induction rule: reachable.induct) (simp_all add: sessionInv_mount sessionInv_step)

lemma reachable_run: "reachable s \<Longrightarrow> reachable (run es s)"
proof (induction es arbitrary: s)
  case Nil
  then show ?case by (simp add: run_def)
next
  case (Cons e es)
  from Cons.prems have "reachable (step e s)" by (rule reach_step)
  from Cons.IH [OF this] show ?case by (simp add: run_def)
qed

lemma click_keeps_marks:
  assumes "cellAt (board (now s)) j = Some m"
  shows "cellAt (board (now (step (Click i) s))) j = Some m"
proof (cases "i < length (board (now s)) \<and> \<not> clickIgnored (now s) i")
  case True
  then have "cellAt (board (now s)) i = None" by (simp add: clickIgnored_def)
  with assms have "j \<noteq> i" by auto
  with assms True show ?thesis
    by (simp add: clickEvent_def rerender_now handleClick_def cellAt_def split: if_splits)
next
  case False
  with assms show ?thesis by (auto simp: clickEvent_def)
qed

lemma first_click_on_fresh_board:
  assumes "board (now s) = emptyBoard" and "xIsNext (now s)" and "isGameActive (now s)"
    and "i < 9"
  shows "board (now (step (Click i) s)) = emptyBoard[i := Some MarkX]"
proof -
  from assms(1,4) have l: "i < length (board (now s))" and e: "cellAt (board (now s)) i = None"
    by (simp_all add: emptyBoard_def cellAt_def)
  from assms(2,3) e have n: "\<not> clickIgnored (now s) i"
    by (simp add: clickIgnored_def)
  from l n have "step (Click i) s = rerender (handleClick (now s) (now s) i)"
    by (simp add: clickEvent_def)
  with n assms(1,2) show ?thesis
    by (simp add: rerender_now handleClick_def)
qed

lemma first_click_after_restart:
  assumes "i < 9"
  shows "board (now (step (Click i) (restartEvent s))) = emptyBoard[i := Some MarkX]"
    and "board (now (step (Click i) (modeChangeEvent v s))) = emptyBoard[i := Some MarkX]"
proof -
  show "board (now (step (Click i) (restartEvent s))) = emptyBoard[i := Some MarkX]"
    unfolding restartEvent_def
    by (rule first_click_on_fresh_board) (simp_all add: rerender_handleRestart assms)
  show "board (now (step (Click i) (modeChangeEvent v s))) = emptyBoard[i := Some MarkX]"
    unfolding modeChangeEvent_def handleModeChange_def
    by (rule first_click_on_fresh_board) (simp_all add: rerender_handleRestart assms)
qed

text \<open>
  Claim C6. In every session reachable from the mounted component by clicks, restarts,
  mode changes and timer firings the board has nine cells, each holding one value; there
  are as many X as O when X is next and one X more when O is next, so the counts differ
  by at most one and X is never behind; a click never replaces a mark already on the
  board; and after a restart, and after a change of mode, which restarts too, a click on
  any of the nine squares is accepted and gives the board whose only mark is an X on
  that square: the first mark placed after a restart is X.
\<close>

theorem reachable_mark_counts:
  assumes "reachable s"
  shows "length (board (now s)) = 9
    \<and> countMark MarkO (board (now s)) \<le> countMark MarkX (board (now s))
    \<and> countMark MarkX (board (now s)) \<le> countMark MarkO (board (now s)) + 1
    \<and> (xIsNext (now s) = (countMark MarkX (board (now s)) = countMark MarkO (board (now s))))
    \<and> (\<forall>i j m. cellAt (board (now s)) j = Some m
          \<longrightarrow> cellAt (board (now (step (Click i) s))) j = Some m)
    \<and> (\<forall>i<9. board (now (step (Click i) (step Restart s))) = emptyBoard[i := Some MarkX])
    \<and> (\<forall>i<9. \<forall>v. board (now (step (Click i) (modeChangeEvent v s)))
          = emptyBoard[i := Some MarkX])"
proof -
  from reachable_sessionInv [OF assms]
  have "length (board (now s)) = 9
    \<and> countMark MarkO (board (now s)) \<le> countMark MarkX (board (now s))
    \<and> countMark MarkX (board (now s)) \<le> countMark MarkO (board (now s)) + 1
    \<and> (xIsNext (now s) = (countMark MarkX (board (now s)) = countMark MarkO (board (now s))))"
    by (simp add: sessionInv_def split: if_splits)
  moreover have "\<forall>i<9. board (now (step (Click i) (step Restart s)))
      = emptyBoard[i := Some MarkX]"
    using first_click_after_restart(1) [of _ s] by simp
  moreover have "\<forall>i<9. \<forall>v. board (now (step (Click i) (modeChangeEvent v s)))
      = emptyBoard[i := Some MarkX]"
    using first_click_after_restart(2) [of _ _ s] by simp
  ultimately show ?thesis using click_keeps_marks [of s] by blast
qed

text \<open>
  Two sessions. Three clicks from the mounted component. And a game restarted after X
  has played cell 0, with the next click on cell 1: the restart has emptied the board
  and given the turn back to X, so the mark on cell 1 is an X and not the O that was due.
\<close>

theorem reachable_mark_counts_witness:
  "length (board (now (run [Click 0, Click 4, Click 1] mount))) = 9
   \<and> countMark MarkO (board (now (run [Click 0, Click 4, Click 1] mount)))
       \<le> countMark MarkX (board (now (run [Click 0, Click 4, Click 1] mount)))
   \<and> countMark MarkX (board (now (run [Click 0, Click 4, Click 1] mount)))
       \<le> countMark MarkO (board (now (run [Click 0, Click 4, Click 1] mount))) + 1
   \<and> board (now (run [Click 0, Click 4, Click 1] mount))
       = [Some MarkX, Some MarkX, None, None, Some MarkO, None, None, None, None]
   \<and> board (now (run [Click 0] mount))
       = [Some MarkX, None, None, None, None, None, None, None, None]
   \<and> xIsNext (now (run [Click 0] mount)) = False
   \<and> board (now (run [Click 0, Restart, Click 1] mount))
       = [None, Some MarkX, None, None, None, None, None, None, None]
   \<and> countMark MarkO (board (now (run [Click 0, Restart, Click 1] mount)))
       \<le> countMark MarkX (board (now (run [Click 0, Restart, Click 1] mount)))"
proof -
  have r: "reachable (run [Click 0, Click 4, Click 1] mount)"
    by (rule reachable_run) (rule reach_mount)
  have b: "board (now (run [Click 0, Click 4, Click 1] mount))
       = [Some MarkX, Some MarkX, None, None, Some MarkO, None, None, None, None]"
    by code_simp
  have r0: "reachable (run [Click 0] mount)"
    by (rule reachable_run) (rule reach_mount)
  have b0: "board (now (run [Click 0] mount))
       = [Some MarkX, None, None, None, None, None, None, None, None]
     \<and> xIsNext (now (run [Click 0] mount)) = False"
    by code_simp
  have r1: "reachable (run [Click 0, Restart, Click 1] mount)"
    by (rule reachable_run) (rule reach_mount)
  have e: "run [Click 0, Restart, Click 1] mount
      = step (Click 1) (step Restart (run [Click 0] mount))"
    by (simp add: run_def)
  have u: "emptyBoard[1 := Some MarkX]
      = [None, Some MarkX, None, None, None, None, None, None, None]"
    by (simp add: emptyBoard_def eval_nat_numeral)
  from reachable_mark_counts [OF r0]
  have "\<forall>i<9. board (now (step (Click i) (step Restart (run [Click 0] mount))))
      = emptyBoard[i := Some MarkX]"
    by blast
  then have "board (now (step (Click 1) (step Restart (run [Click 0] mount))))
      = emptyBoard[1 := Some MarkX]"
    by simp
  with e u have b1: "board (now (run [Click 0, Restart, Click 1] mount))
       = [None, Some MarkX, None, None, None, None, None, None, None]"
    by simp
  from reachable_mark_counts [OF r] reachable_mark_counts [OF r1] b b0 b1
  show ?thesis by blast
qed

text \<open>
  Claim C1, evaluated on the component. In computer mode the human clicks cell 0 of the
  empty board: the move is accepted, no result is reported, and the effect starts the
  timer, whose callback would play cell 4. The callback calls the \<^verbatim>\<open>handleClick\<close> of the
  render that started it, in which \<^verbatim>\<open>gameMode === 'AI' && !xIsNext\<close> holds, so the
  guard written against human clicks during the computer's turn returns early: after
  the timer has fired the board still holds the single X and O is still to move.
\<close>

theorem computer_move_is_dropped:
  "gameMode (now (run [ModeChange AI, Click 0] mount)) = AI
   \<and> board (now (run [ModeChange AI, Click 0] mount))
       = [Some MarkX, None, None, None, None, None, None, None, None]
   \<and> calculateWinner (board (now (run [ModeChange AI, Click 0] mount))) = None
   \<and> map_option board (pending (run [ModeChange AI, Click 0] mount))
       = Some [Some MarkX, None, None, None, None, None, None, None, None]
   \<and> findBestMove [Some MarkX, None, None, None, None, None, None, None, None] = Some 4
   \<and> board (now (run [ModeChange AI, Click 0, TimerFires] mount))
       = [Some MarkX, None, None, None, None, None, None, None, None]
   \<and> xIsNext (now (run [ModeChange AI, Click 0, TimerFires] mount)) = False
   \<and> pending (run [ModeChange AI, Click 0, TimerFires] mount) = None"
  by code_simp

text \<open>The same in every reachable session: the timer never changes board or turn.\<close>

lemma timer_never_moves:
  assumes "reachable s"
  shows "board (now (timerEvent s)) = board (now s)
    \<and> xIsNext (now (timerEvent s)) = xIsNext (now s)"
  using timerEvent_no_move [OF reachable_sessionInv [OF assms]] by auto


end
